theory Spec2Isabelle
  imports Main
begin

section \<open>Python string primitives used by battle\_viewer.py\<close>

text \<open>
  A Python \<open>str\<close> is modelled as a \<open>string\<close>, one \<open>char\<close> per code point; the
  model therefore covers texts whose code points lie below 256. The input file is the
  text as Python hands it over: decoded (undecodable bytes already replaced) and with
  line ends already translated to the line feed, as text mode does.
\<close>

definition isspace :: "char \<Rightarrow> bool" where
  \<comment> \<open>\<open>str.isspace\<close> on the code points below 256\<close>
  "isspace c =
     (let n = (of_char c :: nat)
      in (9 \<le> n \<and> n \<le> 13) \<or> (28 \<le> n \<and> n \<le> 32) \<or> n = 133 \<or> n = 160)"

definition strip :: "string \<Rightarrow> string" where
  \<comment> \<open>\<open>s.strip()\<close>\<close>
  "strip s = rev (dropWhile isspace (rev (dropWhile isspace s)))"

definition rstrip_nl :: "string \<Rightarrow> string" where
  \<comment> \<open>\<open>s.rstrip("\n")\<close>\<close>
  "rstrip_nl s = rev (dropWhile (\<lambda>c. c = CHR 0x0A) (rev s))"

definition startswith :: "string \<Rightarrow> string \<Rightarrow> bool" where
  \<comment> \<open>\<open>s.startswith(p)\<close>, the prefix first\<close>
  "startswith p s = (take (length p) s = p)"

fun contains :: "string \<Rightarrow> string \<Rightarrow> bool" where
  \<comment> \<open>\<open>sub in s\<close>\<close>
  "contains sub [] = (sub = [])"
| "contains sub (c # cs) = (startswith sub (c # cs) \<or> contains sub cs)"

definition isupper_char :: "char \<Rightarrow> bool" where
  \<comment> \<open>the code points below 256 that \<open>str.lower\<close> changes\<close>
  "isupper_char c =
     (let n = (of_char c :: nat)
      in (65 \<le> n \<and> n \<le> 90) \<or> (192 \<le> n \<and> n \<le> 222 \<and> n \<noteq> 215))"

definition lower_char :: "char \<Rightarrow> char" where
  \<comment> \<open>the lower-case letter is 32 further on: bit 5 is set\<close>
  "lower_char c =
     (if isupper_char c
      then (case c of Char b0 b1 b2 b3 b4 b5 b6 b7 \<Rightarrow> Char b0 b1 b2 b3 b4 True b6 b7)
      else c)"

definition lower :: "string \<Rightarrow> string" where
  \<comment> \<open>\<open>s.lower()\<close>\<close>
  "lower s = map lower_char s"

fun split_on :: "char \<Rightarrow> string \<Rightarrow> string list" where
  \<comment> \<open>\<open>s.split(sep)\<close> for a separator of one character\<close>
  "split_on sep [] = [[]]"
| "split_on sep (c # cs) =
     (if c = sep then [] # split_on sep cs
      else (case split_on sep cs of
              [] \<Rightarrow> [[c]]
            | p # ps \<Rightarrow> (c # p) # ps))"

fun join :: "string \<Rightarrow> string list \<Rightarrow> string" where
  \<comment> \<open>\<open>sep.join(parts)\<close>\<close>
  "join sep [] = []"
| "join sep [p] = p"
| "join sep (p # q # ps) = p @ sep @ join sep (q # ps)"

fun readlines :: "string \<Rightarrow> string \<Rightarrow> string list" where
  \<comment> \<open>\<open>for raw in f\<close>: each raw line keeps its line feed; the first argument is the
     line read so far\<close>
  "readlines cur [] = (if cur = [] then [] else [cur])"
| "readlines cur (c # cs) =
     (if c = CHR 0x0A then (cur @ [c]) # readlines [] cs
      else readlines (cur @ [c]) cs)"

definition file_lines :: "string \<Rightarrow> string list" where
  \<comment> \<open>\<open>line = raw.rstrip("\n")\<close> for every \<open>raw\<close> of the file\<close>
  "file_lines text = map rstrip_nl (readlines [] text)"

definition or_default :: "string option \<Rightarrow> string \<Rightarrow> string" where
  \<comment> \<open>\<open>x or d\<close> for an optional string: \<open>None\<close> and the empty string are false\<close>
  "or_default x d = (case x of None \<Rightarrow> d | Some s \<Rightarrow> if s = [] then d else s)"


section \<open>Battle blocks and the two parsers\<close>

definition START :: string where
  "START = ''[[[[[''"

definition END :: string where
  "END = '']]]]]''"

definition UNKNOWN_MATCHUP :: string where
  "UNKNOWN_MATCHUP = ''UNKNOWN_MATCHUP''"

datatype BattleBlock = BattleBlock (header: string) (protocol_lines: "string list")

text \<open>The four local variables of \<open>iter_battles_marked\<close>.\<close>

record marked_state =
  in_block :: bool
  waiting_for_header :: bool
  cur_header :: "string option"
  cur_lines :: "string list"

definition marked_init :: marked_state where
  "marked_init =
     \<lparr>in_block = False, waiting_for_header = False, cur_header = None, cur_lines = []\<rparr>"

definition marked_step :: "marked_state \<Rightarrow> string \<Rightarrow> BattleBlock option \<times> marked_state" where
  \<comment> \<open>one pass of the loop body: the block yielded, if any, and the variables after\<close>
  "marked_step s line =
     (if \<not> in_block s then
        (if strip line = START
         then (None, \<lparr>in_block = True, waiting_for_header = True,
                      cur_header = None, cur_lines = []\<rparr>)
         else (None, s))
      else if strip line = END then
        (Some (BattleBlock (or_default (cur_header s) UNKNOWN_MATCHUP) (cur_lines s)),
         \<lparr>in_block = False, waiting_for_header = False, cur_header = None, cur_lines = []\<rparr>)
      else if waiting_for_header s then
        (if strip line \<noteq> []
         then (None, s\<lparr>cur_header := Some (strip line), waiting_for_header := False\<rparr>)
         else (None, s))
      else if startswith ''|'' line then
        (None, s\<lparr>cur_lines := cur_lines s @ [line]\<rparr>)
      else (None, s))"

fun marked_loop :: "marked_state \<Rightarrow> string list \<Rightarrow> BattleBlock list" where
  \<comment> \<open>the loop over the lines; the generator's output in order\<close>
  "marked_loop s [] = []"
| "marked_loop s (line # ls) =
     (case marked_step s line of
        (None, s') \<Rightarrow> marked_loop s' ls
      | (Some b, s') \<Rightarrow> b # marked_loop s' ls)"

fun marked_run :: "marked_state \<Rightarrow> string list \<Rightarrow> marked_state" where
  \<comment> \<open>the variables after the loop has gone through the lines\<close>
  "marked_run s [] = s"
| "marked_run s (line # ls) = marked_run (snd (marked_step s line)) ls"

definition iter_battles_marked :: "string \<Rightarrow> BattleBlock list" where
  "iter_battles_marked text = marked_loop marked_init (file_lines text)"

fun fallback_loop :: "string option \<Rightarrow> string list \<Rightarrow> string list \<Rightarrow> string option \<times> string list" where
  \<comment> \<open>the loop of \<open>parse_single_battle_fallback\<close> over \<open>header\<close> and \<open>protocol_lines\<close>\<close>
  "fallback_loop hdr acc [] = (hdr, acc)"
| "fallback_loop hdr acc (line # ls) =
     (if strip line = [] then fallback_loop hdr acc ls
      else if hdr = None \<and> \<not> startswith ''|'' line
        then fallback_loop (Some (strip line)) acc ls
      else if startswith ''|'' line then fallback_loop hdr (acc @ [line]) ls
      else fallback_loop hdr acc ls)"

definition parse_single_battle_fallback :: "string \<Rightarrow> BattleBlock" where
  "parse_single_battle_fallback text =
     (case fallback_loop None [] (file_lines text) of
        (hdr, acc) \<Rightarrow> BattleBlock (or_default hdr UNKNOWN_MATCHUP) acc)"

definition iter_battles :: "string \<Rightarrow> BattleBlock list" where
  "iter_battles text =
     (if contains START text \<and> contains END text
      then iter_battles_marked text
      else [parse_single_battle_fallback text])"


section \<open>Selecting a block\<close>

datatype error =
    IndexError int          \<comment> \<open>\<open>IndexError\<close>, with the index asked for\<close>
  | ValueError string int   \<comment> \<open>\<open>ValueError\<close>, with the matchup and the occurrence asked for\<close>

fun index_loop :: "int \<Rightarrow> int \<Rightarrow> BattleBlock list \<Rightarrow> error + BattleBlock" where
  \<comment> \<open>\<open>for i, block in enumerate(...)\<close>, the first argument is \<open>i\<close>\<close>
  "index_loop i index [] = Inl (IndexError index)"
| "index_loop i index (block # bs) =
     (if i = index then Inr block else index_loop (i + 1) index bs)"

definition get_battle_by_index :: "string \<Rightarrow> int \<Rightarrow> error + BattleBlock" where
  "get_battle_by_index text index = index_loop 0 index (iter_battles text)"

fun matchup_loop :: "string \<Rightarrow> string \<Rightarrow> int \<Rightarrow> int \<Rightarrow> BattleBlock list \<Rightarrow> error + BattleBlock" where
  \<comment> \<open>the loop of \<open>get_battle_by_matchup\<close>; the third argument is \<open>hits\<close>\<close>
  "matchup_loop matchup target hits occurrence [] = Inl (ValueError matchup occurrence)"
| "matchup_loop matchup target hits occurrence (block # bs) =
     (if lower (strip (header block)) = target then
        (if hits = occurrence then Inr block
         else matchup_loop matchup target (hits + 1) occurrence bs)
      else matchup_loop matchup target hits occurrence bs)"

definition get_battle_by_matchup :: "string \<Rightarrow> string \<Rightarrow> int \<Rightarrow> error + BattleBlock" where
  "get_battle_by_matchup text matchup occurrence =
     matchup_loop matchup (lower (strip matchup)) 0 occurrence (iter_battles text)"


section \<open>Overriding player names and avatars\<close>

function pad_parts :: "string list \<Rightarrow> string list" where
  \<comment> \<open>\<open>while len(parts) < 6: parts.append("")\<close>\<close>
  "pad_parts parts = (if length parts < 6 then pad_parts (parts @ [[]]) else parts)"
  by pat_completeness auto
termination
  by (relation "measure (\<lambda>parts. 6 - length parts)") auto

declare pad_parts.simps [simp del]

definition fix_player_line :: "string \<Rightarrow> string option \<Rightarrow> string option \<Rightarrow> string" where
  "fix_player_line line name avatar =
     (let parts = pad_parts (split_on (CHR ''|'') line);
          parts = (case name of None \<Rightarrow> parts | Some n \<Rightarrow> parts[3 := n]);
          parts = (case avatar of None \<Rightarrow> parts | Some a \<Rightarrow> parts[4 := a])
      in join ''|'' parts)"

fun player_loop ::
  "string option \<Rightarrow> string option \<Rightarrow> string option \<Rightarrow> string option \<Rightarrow>
   bool \<Rightarrow> bool \<Rightarrow> string list \<Rightarrow> string list \<times> bool \<times> bool" where
  \<comment> \<open>the first loop of \<open>override_players\<close>: the rewritten lines, \<open>found_p1\<close> and
     \<open>found_p2\<close>; the overrides come in the order name 1, name 2, avatar 1, avatar 2\<close>
  "player_loop n1 n2 a1 a2 found_p1 found_p2 [] = ([], found_p1, found_p2)"
| "player_loop n1 n2 a1 a2 found_p1 found_p2 (ln # ls) =
     (if startswith ''|player|p1|'' ln then
        (case player_loop n1 n2 a1 a2 True found_p2 ls of
           (out, f1, f2) \<Rightarrow> (fix_player_line ln n1 a1 # out, f1, f2))
      else if startswith ''|player|p2|'' ln then
        (case player_loop n1 n2 a1 a2 found_p1 True ls of
           (out, f1, f2) \<Rightarrow> (fix_player_line ln n2 a2 # out, f1, f2))
      else
        (case player_loop n1 n2 a1 a2 found_p1 found_p2 ls of
           (out, f1, f2) \<Rightarrow> (ln # out, f1, f2)))"

fun find_start :: "nat \<Rightarrow> string list \<Rightarrow> nat" where
  \<comment> \<open>the second loop: \<open>insert_at\<close>, the first argument is \<open>i\<close>\<close>
  "find_start i [] = 0"
| "find_start i (ln # ls) = (if startswith ''|start|'' ln then i else find_start (Suc i) ls)"

definition list_insert :: "nat \<Rightarrow> 'a \<Rightarrow> 'a list \<Rightarrow> 'a list" where
  \<comment> \<open>\<open>xs.insert(i, x)\<close> for \<open>i \<ge> 0\<close>\<close>
  "list_insert i x xs = take i xs @ x # drop i xs"

definition player_line :: "string \<Rightarrow> string \<Rightarrow> string \<Rightarrow> string" where
  \<comment> \<open>\<open>f"|player|{side}|{name}|{avatar}|"\<close>\<close>
  "player_line side name avatar = ''|player|'' @ side @ ''|'' @ name @ ''|'' @ avatar @ ''|''"

definition override_players ::
  "string list \<Rightarrow> string option \<Rightarrow> string option \<Rightarrow> string option \<Rightarrow> string option \<Rightarrow>
   string list" where
  \<comment> \<open>arguments as in the source: the lines, \<open>p1_name\<close>, \<open>p2_name\<close>, \<open>p1_avatar\<close>,
     \<open>p2_avatar\<close>\<close>
  "override_players lines p1_name p2_name p1_avatar p2_avatar =
     (case player_loop p1_name p2_name p1_avatar p2_avatar False False lines of
        (out, found_p1, found_p2) \<Rightarrow>
          (let insert_at = find_start 0 out;
               out = (if \<not> found_p1 \<and> (p1_name \<noteq> None \<or> p1_avatar \<noteq> None)
                      then list_insert insert_at
                             (player_line ''p1'' (or_default p1_name ''p1'') (or_default p1_avatar ''1''))
                             out
                      else out);
               out = (if \<not> found_p2 \<and> (p2_name \<noteq> None \<or> p2_avatar \<noteq> None)
                      then list_insert insert_at
                             (player_line ''p2'' (or_default p2_name ''p2'') (or_default p2_avatar ''1''))
                             out
                      else out)
           in out))"


section \<open>Building the replay object\<close>

text \<open>
  The builder calls three things of the Python runtime: \<open>int\<close> on a string,
  \<open>datetime.fromtimestamp(epoch, tz=timezone.utc).strftime(...)\<close> and
  \<open>datetime.now(timezone.utc).strftime(...)\<close>. They are parameters of the model: the
  first two return \<open>None\<close> where Python raises, the third is the string it returns.
\<close>

record runtime =
  int_of_str :: "string \<Rightarrow> int option"
  utc_strftime :: "int \<Rightarrow> string option"
  utc_now :: string

text \<open>The dictionary handed to \<open>Replay.create_replay_object\<close>.\<close>

record log_dict =
  p1 :: string
  p2 :: string
  log :: "string list"
  inputLog :: string
  roomid :: string
  format :: string
  timestamp :: string

text \<open>The four variables of the scan: \<open>p1\<close>, \<open>p2\<close>, \<open>fmt\<close> and \<open>ts\<close>.\<close>

record scan_state =
  s_p1 :: string
  s_p2 :: string
  s_fmt :: string
  s_ts :: "string option"

definition parse_ts :: "runtime \<Rightarrow> string \<Rightarrow> string option" where
  \<comment> \<open>the \<open>try\<close> block: any exception gives \<open>None\<close>\<close>
  "parse_ts rt ln =
     (let parts = split_on (CHR ''|'') ln
      in if length parts > 2
         then (case int_of_str rt (parts ! 2) of
                 None \<Rightarrow> None
               | Some epoch \<Rightarrow> utc_strftime rt epoch)
         else None)"

definition scan_step :: "runtime \<Rightarrow> scan_state \<Rightarrow> string \<Rightarrow> scan_state" where
  "scan_step rt s ln =
     (if startswith ''|player|p1|'' ln then
        (let parts = split_on (CHR ''|'') ln
         in if length parts > 3 \<and> parts ! 3 \<noteq> [] then s\<lparr>s_p1 := parts ! 3\<rparr> else s)
      else if startswith ''|player|p2|'' ln then
        (let parts = split_on (CHR ''|'') ln
         in if length parts > 3 \<and> parts ! 3 \<noteq> [] then s\<lparr>s_p2 := parts ! 3\<rparr> else s)
      else if startswith ''|tier|'' ln then
        (let parts = split_on (CHR ''|'') ln
         in if length parts > 2 \<and> parts ! 2 \<noteq> [] then s\<lparr>s_fmt := parts ! 2\<rparr> else s)
      else if s_ts s = None \<and> startswith ''|t:|'' ln then
        s\<lparr>s_ts := parse_ts rt ln\<rparr>
      else s)"

fun scan_loop :: "runtime \<Rightarrow> scan_state \<Rightarrow> string list \<Rightarrow> scan_state" where
  "scan_loop rt s [] = s"
| "scan_loop rt s (ln # ls) = scan_loop rt (scan_step rt s ln) ls"

definition scan_init :: scan_state where
  "scan_init = \<lparr>s_p1 = ''p1'', s_p2 = ''p2'', s_fmt = ''Custom Game'', s_ts = None\<rparr>"

definition build_replay_object :: "runtime \<Rightarrow> string list \<Rightarrow> string \<Rightarrow> log_dict" where
  \<comment> \<open>the dictionary the function builds; \<open>show_full_damage\<close> only goes on to the
     library call\<close>
  "build_replay_object rt lines rid =
     (let s = scan_loop rt scan_init lines;
          ts = (case s_ts s of None \<Rightarrow> utc_now rt | Some t \<Rightarrow> t)
      in \<lparr>p1 = s_p1 s, p2 = s_p2 s, log = lines @ [[]], inputLog = [],
          roomid = rid, format = s_fmt s, timestamp = ts\<rparr>)"


section \<open>The runtime as CPython provides it\<close>

text \<open>
  A concrete runtime, for evaluating the builder on examples: \<open>int\<close> on a string of
  code points below 256 (surrounding white space, an optional sign, decimal digits with
  single underscores between them) and the UTC calendar for the years 1 to 9999, which
  is the range of \<open>datetime\<close>, printed in the C locale as the C library of Linux
  does: the year is not padded. The white space that \<open>int\<close> skips is not the one of
  \<open>str.strip\<close>: the separators 28 to 31 are not part of it.
\<close>

definition is_digit :: "char \<Rightarrow> bool" where
  "is_digit c = (let n = (of_char c :: nat) in 48 \<le> n \<and> n \<le> 57)"

fun digits_ok :: "bool \<Rightarrow> string \<Rightarrow> bool" where
  \<comment> \<open>the first argument: the character before was a digit\<close>
  "digits_ok prev [] = prev"
| "digits_ok prev (c # cs) =
     (if is_digit c then digits_ok True cs
      else (c = CHR ''_'' \<and> prev \<and> digits_ok False cs))"

definition digits_value :: "string \<Rightarrow> int" where
  "digits_value ds = foldl (\<lambda>acc c. 10 * acc + (int (of_char c) - 48)) 0 (filter is_digit ds)"

definition int_space :: "char \<Rightarrow> bool" where
  \<comment> \<open>the white space \<open>int\<close> skips around the number\<close>
  "int_space c =
     (let n = (of_char c :: nat)
      in (9 \<le> n \<and> n \<le> 13) \<or> n = 32 \<or> n = 133 \<or> n = 160)"

definition py_int :: "string \<Rightarrow> int option" where
  "py_int s =
     (case rev (dropWhile int_space (rev (dropWhile int_space s))) of
        [] \<Rightarrow> None
      | c # cs \<Rightarrow>
          (if c = CHR ''-'' then (if digits_ok False cs then Some (- digits_value cs) else None)
           else if c = CHR ''+'' then (if digits_ok False cs then Some (digits_value cs) else None)
           else (if digits_ok False (c # cs) then Some (digits_value (c # cs)) else None)))"

definition two_digits :: "int \<Rightarrow> string" where
  "two_digits n = [''0123456789'' ! nat (n div 10 mod 10), ''0123456789'' ! nat (n mod 10)]"

definition year_digits :: "int \<Rightarrow> string" where
  \<comment> \<open>a year from 1 to 9999 in decimal, without padding\<close>
  "year_digits n =
     (if n < 10 then [''0123456789'' ! nat n]
      else if n < 100 then two_digits n
      else if n < 1000 then (''0123456789'' ! nat (n div 100)) # two_digits (n mod 100)
      else two_digits (n div 100) @ two_digits (n mod 100))"

definition civil_from_days :: "int \<Rightarrow> int \<times> int \<times> int" where
  \<comment> \<open>year, month and day of the proleptic Gregorian calendar, from the days since
     1970-01-01\<close>
  "civil_from_days days =
     (let z = days + 719468;
          era = z div 146097;
          doe = z - era * 146097;
          yoe = (doe - doe div 1460 + doe div 36524 - doe div 146096) div 365;
          doy = doe - (365 * yoe + yoe div 4 - yoe div 100);
          mp = (5 * doy + 2) div 153;
          d = doy - (153 * mp + 2) div 5 + 1;
          m = (if mp < 10 then mp + 3 else mp - 9);
          y = yoe + era * 400 + (if m \<le> 2 then 1 else 0)
      in (y, m, d))"

definition py_utc_strftime :: "int \<Rightarrow> string option" where
  \<comment> \<open>\<open>"%a %b %d %Y %H:%M:%S"\<close> of the epoch second in UTC\<close>
  "py_utc_strftime epoch =
     (if epoch < - 62135596800 \<or> 253402300799 < epoch then None
      else
        (let days = epoch div 86400;
             secs = epoch mod 86400
         in case civil_from_days days of
              (y, m, d) \<Rightarrow>
                Some ([''Sun'', ''Mon'', ''Tue'', ''Wed'', ''Thu'', ''Fri'', ''Sat''] ! nat ((days + 4) mod 7)
                      @ '' ''
                      @ [''Jan'', ''Feb'', ''Mar'', ''Apr'', ''May'', ''Jun'',
                         ''Jul'', ''Aug'', ''Sep'', ''Oct'', ''Nov'', ''Dec''] ! nat (m - 1)
                      @ '' '' @ two_digits d
                      @ '' '' @ year_digits y
                      @ '' '' @ two_digits (secs div 3600)
                      @ '':'' @ two_digits (secs mod 3600 div 60)
                      @ '':'' @ two_digits (secs mod 60))))"

definition py_runtime :: "string \<Rightarrow> runtime" where
  \<comment> \<open>the argument is what \<open>datetime.now(timezone.utc).strftime(...)\<close> returns\<close>
  "py_runtime now = \<lparr>int_of_str = py_int, utc_strftime = py_utc_strftime, utc_now = now\<rparr>"


section \<open>Notions of the specification\<close>

fun alternating :: "bool \<Rightarrow> string list \<Rightarrow> bool" where
  \<comment> \<open>the marker lines alternate, a start marker first and an end marker last; the
     flag says that a start marker is open\<close>
  "alternating inside [] = (\<not> inside)"
| "alternating inside (l # ls) =
     (if strip l = START then \<not> inside \<and> alternating True ls
      else if strip l = END then inside \<and> alternating False ls
      else alternating inside ls)"

definition well_formed_marked :: "string list \<Rightarrow> bool" where
  "well_formed_marked ls = alternating False ls"

definition count_markers :: "string \<Rightarrow> string list \<Rightarrow> nat" where
  \<comment> \<open>how many lines are the marker \<open>m\<close> once trimmed\<close>
  "count_markers m ls = length (filter (\<lambda>l. strip l = m) ls)"

definition fresh_while_waiting :: "marked_state \<Rightarrow> bool" where
  \<comment> \<open>while the header is awaited, no header and no line has been stored\<close>
  "fresh_while_waiting s =
     (\<not> waiting_for_header s \<or> (in_block s \<and> cur_header s = None \<and> cur_lines s = []))"

definition pipe_field :: "nat \<Rightarrow> string \<Rightarrow> string" where
  \<comment> \<open>the field of index \<open>k\<close> of a line split at the pipes, empty when the line has
     no such field\<close>
  "pipe_field k ln =
     (let parts = split_on (CHR ''|'') ln in if k < length parts then parts ! k else [])"

definition rewrite_line ::
  "string option \<Rightarrow> string option \<Rightarrow> string option \<Rightarrow> string option \<Rightarrow> string \<Rightarrow> string" where
  \<comment> \<open>what the first loop of \<open>override_players\<close> leaves in place of a line\<close>
  "rewrite_line n1 n2 a1 a2 ln =
     (if startswith ''|player|p1|'' ln then fix_player_line ln n1 a1
      else if startswith ''|player|p2|'' ln then fix_player_line ln n2 a2
      else ln)"


section \<open>The marked parser\<close>

lemma START_neq_END: "START \<noteq> END"
  by (simp add: START_def END_def)

lemma marked_step_quiet: "strip l \<noteq> END \<Longrightarrow> fst (marked_step s l) = None"
  by (simp add: marked_step_def)

lemma marked_step_in_block:
  "strip l \<noteq> END \<Longrightarrow> strip l \<noteq> START \<Longrightarrow> in_block (snd (marked_step s l)) = in_block s"
  by (simp add: marked_step_def)

lemma marked_loop_count:
  "alternating (in_block s) ls \<Longrightarrow> length (marked_loop s ls) = count_markers END ls"
proof (induction ls arbitrary: s)
  case Nil
  then show ?case by (simp add: count_markers_def)
next
  case (Cons l ls)
  show ?case
  proof (cases "strip l = START")
    case True
    with Cons.prems have nb: "\<not> in_block s" and alt: "alternating True ls" by simp_all
    have st: "marked_step s l = (None, \<lparr>in_block = True, waiting_for_header = True,
                      cur_header = None, cur_lines = []\<rparr>)"
      using nb True by (simp add: marked_step_def)
    show ?thesis using Cons.IH[of "\<lparr>in_block = True, waiting_for_header = True,
                      cur_header = None, cur_lines = []\<rparr>"] alt st True START_neq_END
      by (simp add: count_markers_def)
  next
    case nS: False
    show ?thesis
    proof (cases "strip l = END")
      case True
      with Cons.prems nS have ib: "in_block s" and alt: "alternating False ls" by simp_all
      have st: "marked_step s l = (Some (BattleBlock (or_default (cur_header s) UNKNOWN_MATCHUP) (cur_lines s)),
         \<lparr>in_block = False, waiting_for_header = False, cur_header = None, cur_lines = []\<rparr>)"
        using ib True by (simp add: marked_step_def)
      show ?thesis using Cons.IH[of "\<lparr>in_block = False, waiting_for_header = False, cur_header = None, cur_lines = []\<rparr>"] alt st True
        by (simp add: count_markers_def)
    next
      case nE: False
      from Cons.prems nS nE have alt: "alternating (in_block s) ls" by simp
      obtain s' where st: "marked_step s l = (None, s')" and ib: "in_block s' = in_block s"
        using marked_step_quiet[OF nE, of s] marked_step_in_block[OF nE nS, of s]
        by (cases "marked_step s l") simp
      show ?thesis using Cons.IH[of s'] alt st ib nE
        by (simp add: count_markers_def)
    qed
  qed
qed

lemma alternating_counts:
  "alternating b ls \<Longrightarrow> count_markers START ls + (if b then 1 else 0) = count_markers END ls"
proof (induction ls arbitrary: b)
  case Nil
  then show ?case by (simp add: count_markers_def)
next
  case (Cons l ls)
  consider (opens) "strip l = START" | (closes) "strip l = END"
    | (other) "strip l \<noteq> START" "strip l \<noteq> END" by blast
  then show ?case
  proof cases
    case opens
    with Cons.prems have "\<not> b" "alternating True ls" by simp_all
    with Cons.IH[of True] opens START_neq_END show ?thesis
      by (simp add: count_markers_def)
  next
    case closes
    with Cons.prems START_neq_END have "b" "alternating False ls" by auto
    with Cons.IH[of False] closes START_neq_END show ?thesis
      by (auto simp: count_markers_def)
  next
    case other
    with Cons.prems have "alternating b ls" by simp
    with Cons.IH[of b] other show ?thesis
      by (simp add: count_markers_def)
  qed
qed

lemma contains_iff: "contains sub s \<longleftrightarrow> (\<exists>ps ss. s = ps @ sub @ ss)"
proof (induction s)
  case Nil
  then show ?case by auto
next
  case (Cons c cs)
  have a: "startswith sub (c # cs) \<longleftrightarrow> (\<exists>ss. c # cs = sub @ ss)"
    unfolding startswith_def
    by (metis append_eq_conv_conj append_take_drop_id)
  have b: "(\<exists>ps ss. c # cs = ps @ sub @ ss) \<longleftrightarrow>
           (\<exists>ss. c # cs = sub @ ss) \<or> (\<exists>ps ss. cs = ps @ sub @ ss)"
  proof
    assume "\<exists>ps ss. c # cs = ps @ sub @ ss"
    then obtain ps ss where e: "c # cs = ps @ sub @ ss" by blast
    show "(\<exists>ss. c # cs = sub @ ss) \<or> (\<exists>ps ss. cs = ps @ sub @ ss)"
    proof (cases ps)
      case Nil
      with e show ?thesis by auto
    next
      case (Cons p ps')
      with e have "cs = ps' @ sub @ ss" by simp
      then show ?thesis by blast
    qed
  next
    assume "(\<exists>ss. c # cs = sub @ ss) \<or> (\<exists>ps ss. cs = ps @ sub @ ss)"
    then show "\<exists>ps ss. c # cs = ps @ sub @ ss"
    proof
      assume "\<exists>ss. c # cs = sub @ ss"
      then obtain ss where "c # cs = [] @ sub @ ss" by auto
      then show ?thesis by blast
    next
      assume "\<exists>ps ss. cs = ps @ sub @ ss"
      then obtain ps ss where "c # cs = (c # ps) @ sub @ ss" by auto
      then show ?thesis by blast
    qed
  qed
  show ?case using Cons.IH a b by simp
qed

lemma concat_readlines: "concat (readlines cur inp) = cur @ inp"
  by (induction inp arbitrary: cur) auto

lemma rstrip_nl_prefix: "\<exists>t. r = rstrip_nl r @ t"
proof -
  have "rev r = takeWhile (\<lambda>c. c = CHR 0x0A) (rev r) @ dropWhile (\<lambda>c. c = CHR 0x0A) (rev r)"
    by simp
  then have "r = rev (dropWhile (\<lambda>c. c = CHR 0x0A) (rev r)) @ rev (takeWhile (\<lambda>c. c = CHR 0x0A) (rev r))"
    by (metis rev_append rev_rev_ident)
  then show ?thesis unfolding rstrip_nl_def by blast
qed

lemma strip_infix: "\<exists>a b. l = a @ strip l @ b"
proof -
  define d where "d = dropWhile isspace l"
  have 1: "l = takeWhile isspace l @ d" by (simp add: d_def)
  have "rev d = takeWhile isspace (rev d) @ dropWhile isspace (rev d)" by simp
  then have 2: "d = rev (dropWhile isspace (rev d)) @ rev (takeWhile isspace (rev d))"
    by (metis rev_append rev_rev_ident)
  have "strip l = rev (dropWhile isspace (rev d))" by (simp add: strip_def d_def)
  with 1 2 show ?thesis by metis
qed

lemma marker_line_in_text:
  assumes "l \<in> set (file_lines text)" and "strip l = m"
  shows "contains m text"
proof -
  from assms(1) obtain r where r: "r \<in> set (readlines [] text)" and l: "l = rstrip_nl r"
    by (auto simp: file_lines_def)
  from r obtain xs ys where "readlines [] text = xs @ r # ys" by (meson split_list)
  then have "concat (readlines [] text) = concat xs @ r @ concat ys" by simp
  then have t: "text = concat xs @ r @ concat ys" by (simp add: concat_readlines)
  obtain u where u: "r = l @ u" using rstrip_nl_prefix l by blast
  obtain a b where ab: "l = a @ m @ b" using strip_infix assms(2) by blast
  have "text = (concat xs @ a) @ m @ (b @ u @ concat ys)" using t u ab by simp
  then show ?thesis unfolding contains_iff by blast
qed

lemma marked_mode_chosen:
  assumes "0 < count_markers START (file_lines inp)"
    and "0 < count_markers END (file_lines inp)"
  shows "iter_battles inp = iter_battles_marked inp"
proof -
  from assms(1) obtain l where "l \<in> set (file_lines inp)" "strip l = START"
    unfolding count_markers_def by (metis (mono_tags, lifting) filter_False length_0_conv less_numeral_extra(3))
  then have s: "contains START inp" by (rule marker_line_in_text)
  from assms(2) obtain l where "l \<in> set (file_lines inp)" "strip l = END"
    unfolding count_markers_def by (metis (mono_tags, lifting) filter_False length_0_conv less_numeral_extra(3))
  then have e: "contains END inp" by (rule marker_line_in_text)
  show ?thesis using s e by (simp add: iter_battles_def)
qed

text \<open>
  C3. On a well-formed marked input, where the lines that are markers once trimmed
  alternate between the start and the end marker, beginning with a start marker and
  ending with an end marker, the marked parser yields as many blocks as there are
  start markers, which is also the number of end markers: the number of pairs. When
  there is at least one pair, \<open>iter_battles\<close> takes the marked parser.
\<close>

theorem marked_block_count:
  "well_formed_marked (file_lines text) \<Longrightarrow>
   length (iter_battles_marked text) = count_markers START (file_lines text) \<and>
   length (iter_battles_marked text) = count_markers END (file_lines text) \<and>
   (0 < count_markers START (file_lines text) \<longrightarrow>
      iter_battles text = iter_battles_marked text)"
proof -
  assume wf: "well_formed_marked (file_lines text)"
  have a: "length (iter_battles_marked text) = count_markers END (file_lines text)"
    using wf marked_loop_count[of marked_init "file_lines text"]
    by (simp add: well_formed_marked_def iter_battles_marked_def marked_init_def)
  have b: "count_markers START (file_lines text) = count_markers END (file_lines text)"
    using wf alternating_counts[of False "file_lines text"]
    by (simp add: well_formed_marked_def)
  show ?thesis using a b marked_mode_chosen by simp
qed

theorem marked_block_count_witness:
  "well_formed_marked (file_lines ''[[[[[\<newline>A vs B\<newline>|player|p1|A|1|\<newline>|player|p2|B|2|\<newline>]]]]]\<newline>'') \<and>
   length (iter_battles_marked ''[[[[[\<newline>A vs B\<newline>|player|p1|A|1|\<newline>|player|p2|B|2|\<newline>]]]]]\<newline>'') = 1 \<and>
   iter_battles ''[[[[[\<newline>A vs B\<newline>|player|p1|A|1|\<newline>|player|p2|B|2|\<newline>]]]]]\<newline>'' = iter_battles_marked ''[[[[[\<newline>A vs B\<newline>|player|p1|A|1|\<newline>|player|p2|B|2|\<newline>]]]]]\<newline>''"
proof -
  have h: "well_formed_marked (file_lines ''[[[[[\<newline>A vs B\<newline>|player|p1|A|1|\<newline>|player|p2|B|2|\<newline>]]]]]\<newline>'')"
    by code_simp
  have c: "count_markers START (file_lines ''[[[[[\<newline>A vs B\<newline>|player|p1|A|1|\<newline>|player|p2|B|2|\<newline>]]]]]\<newline>'') = 1"
    by code_simp
  from marked_block_count [OF h] c h show ?thesis by simp
qed

lemma marked_loop_no_end:
  "\<forall>l\<in>set ls. strip l \<noteq> END \<Longrightarrow> marked_loop s ls = []"
proof (induction ls arbitrary: s)
  case Nil show ?case by simp
next
  case (Cons l ls)
  then have nE: "strip l \<noteq> END" by simp
  obtain s' where st: "marked_step s l = (None, s')"
    using marked_step_quiet[OF nE, of s] by (cases "marked_step s l") simp
  show ?case using Cons st by simp
qed

lemma marked_loop_trailing:
  "\<forall>l\<in>set tail. strip l \<noteq> END \<Longrightarrow> marked_loop s (ls @ tail) = marked_loop s ls"
proof (induction ls arbitrary: s)
  case Nil then show ?case by (simp add: marked_loop_no_end)
next
  case (Cons l ls)
  then show ?case by (simp split: prod.splits option.splits)
qed

text \<open>
  C4. In marked mode a block that is still open at the end of the input is not
  yielded: whenever the lines of one input are the lines of another followed by a start
  marker and by lines none of which is an end marker, both inputs yield the same blocks.
\<close>

theorem marked_unterminated_dropped:
  "file_lines text' = file_lines text @ m # tail \<Longrightarrow> strip m = START \<Longrightarrow>
   \<forall>l\<in>set tail. strip l \<noteq> END \<Longrightarrow>
   iter_battles_marked text' = iter_battles_marked text"
  using marked_loop_trailing [of "m # tail" marked_init "file_lines text"] START_neq_END
  by (simp add: iter_battles_marked_def)

theorem marked_unterminated_dropped_witness:
  "file_lines ''[[[[[\<newline>A vs B\<newline>|player|p1|A|1|\<newline>|player|p2|B|2|\<newline>]]]]]\<newline>[[[[[\<newline>C vs D\<newline>|turn|1\<newline>'' =
     file_lines ''[[[[[\<newline>A vs B\<newline>|player|p1|A|1|\<newline>|player|p2|B|2|\<newline>]]]]]\<newline>'' @ ''[[[[['' # [''C vs D'', ''|turn|1''] \<and>
   strip ''[[[[['' = START \<and>
   strip ''C vs D'' \<noteq> END \<and> strip ''|turn|1'' \<noteq> END \<and>
   iter_battles_marked ''[[[[[\<newline>A vs B\<newline>|player|p1|A|1|\<newline>|player|p2|B|2|\<newline>]]]]]\<newline>[[[[[\<newline>C vs D\<newline>|turn|1\<newline>'' =
     iter_battles_marked ''[[[[[\<newline>A vs B\<newline>|player|p1|A|1|\<newline>|player|p2|B|2|\<newline>]]]]]\<newline>''"
proof -
  have h1: "file_lines ''[[[[[\<newline>A vs B\<newline>|player|p1|A|1|\<newline>|player|p2|B|2|\<newline>]]]]]\<newline>[[[[[\<newline>C vs D\<newline>|turn|1\<newline>'' =
     file_lines ''[[[[[\<newline>A vs B\<newline>|player|p1|A|1|\<newline>|player|p2|B|2|\<newline>]]]]]\<newline>'' @ ''[[[[['' # [''C vs D'', ''|turn|1'']"
    by code_simp
  have h2: "strip ''[[[[['' = START"
    by code_simp
  have h3: "strip ''C vs D'' \<noteq> END" "strip ''|turn|1'' \<noteq> END"
    by code_simp+
  then have h4: "\<forall>l\<in>set [''C vs D'', ''|turn|1'']. strip l \<noteq> END"
    by simp
  from marked_unterminated_dropped [OF h1 h2 h4] h1 h2 h3 show ?thesis by blast
qed

lemma marked_loop_append:
  "marked_loop s (xs @ ys) = marked_loop s xs @ marked_loop (marked_run s xs) ys"
  by (induction xs arbitrary: s) (auto split: prod.splits option.splits)

lemma marked_step_fresh:
  "fresh_while_waiting s \<Longrightarrow> fresh_while_waiting (snd (marked_step s l))"
  by (auto simp: fresh_while_waiting_def marked_step_def)

lemma marked_run_fresh:
  "fresh_while_waiting s \<Longrightarrow> fresh_while_waiting (marked_run s ls)"
  by (induction ls arbitrary: s) (auto simp: marked_step_fresh)

lemma marked_init_fresh: "fresh_while_waiting marked_init"
  by (simp add: fresh_while_waiting_def marked_init_def)

lemma waiting_state:
  assumes "s = marked_run marked_init ls" and "waiting_for_header s"
  shows "s = \<lparr>in_block = True, waiting_for_header = True, cur_header = None, cur_lines = []\<rparr>"
proof -
  have "fresh_while_waiting s"
    using assms(1) marked_run_fresh[OF marked_init_fresh] by simp
  then show ?thesis using assms(2) by (simp add: fresh_while_waiting_def)
qed

text \<open>
  C9. In marked mode, take any state the parser reaches from its start in which it is
  inside a block and waits for the header; no header and no line is stored then. A
  line met in that state is handled so: the end marker closes the block, which is
  yielded with the sentinel as header and no protocol line, and the parser is outside
  again; any other line that is not empty once trimmed becomes the header, trimmed, and
  the parser goes on to collect lines; a blank line changes nothing, and the parser
  still waits for the header.
\<close>

theorem awaiting_header_step:
  "s = marked_run marked_init ls \<Longrightarrow> in_block s \<Longrightarrow> waiting_for_header s \<Longrightarrow>
   marked_step s line =
     (if strip line = END
      then (Some (BattleBlock UNKNOWN_MATCHUP []), marked_init)
      else if strip line \<noteq> []
      then (None, \<lparr>in_block = True, waiting_for_header = False,
                   cur_header = Some (strip line), cur_lines = []\<rparr>)
      else (None, s))"
proof -
  assume r: "s = marked_run marked_init ls" and w: "waiting_for_header s"
  have s: "s = \<lparr>in_block = True, waiting_for_header = True, cur_header = None, cur_lines = []\<rparr>"
    using r w by (rule waiting_state)
  show ?thesis unfolding s
    by (simp add: marked_step_def marked_init_def or_default_def)
qed

theorem awaiting_header_step_witness:
  "in_block (marked_run marked_init [''note'', '' [[[[[ '', ''   '']) \<and>
   waiting_for_header (marked_run marked_init [''note'', '' [[[[[ '', ''   '']) \<and>
   marked_step (marked_run marked_init [''note'', '' [[[[[ '', ''   '']) '' A vs B '' =
     (None, \<lparr>in_block = True, waiting_for_header = False, cur_header = Some ''A vs B'',
             cur_lines = []\<rparr>)"
proof -
  have h1: "in_block (marked_run marked_init [''note'', '' [[[[[ '', ''   ''])"
    by code_simp
  have h2: "waiting_for_header (marked_run marked_init [''note'', '' [[[[[ '', ''   ''])"
    by code_simp
  have s: "strip '' A vs B '' = ''A vs B''"
    by code_simp
  have e: "''A vs B'' \<noteq> END"
    by code_simp
  show ?thesis
    using awaiting_header_step [OF refl h1 h2, of "'' A vs B ''"] h1 h2 s e
    by simp
qed

text \<open>
  An end marker met right after the start marker is not empty once trimmed, yet it
  does not become the header: the block is closed and yielded with the sentinel.
\<close>

theorem end_marker_is_no_header:
  "marked_run marked_init [''[[[[['']
     = \<lparr>in_block = True, waiting_for_header = True, cur_header = None, cur_lines = []\<rparr> \<and>
   strip '']]]]]'' \<noteq> [] \<and>
   marked_step (marked_run marked_init [''[[[[['']) '']]]]]'' =
     (Some (BattleBlock ''UNKNOWN_MATCHUP'' []),
      \<lparr>in_block = False, waiting_for_header = False, cur_header = None, cur_lines = []\<rparr>)"
  by code_simp


section \<open>The fallback parser\<close>

lemma pipe_not_blank: "startswith ''|'' l \<Longrightarrow> strip l \<noteq> []"
proof -
  assume "startswith ''|'' l"
  then obtain r where l: "l = CHR ''|'' # r" by (cases l) (auto simp: startswith_def)
  have ns: "\<not> isspace (CHR ''|'')" by (simp add: isspace_def)
  have d: "dropWhile isspace l = l" using l ns by simp
  have "rev l = rev r @ [CHR ''|'']" using l by simp
  then have "dropWhile isspace (rev l) \<noteq> []" using ns
    by (metis dropWhile_eq_Nil_conv in_set_conv_decomp)
  then show ?thesis by (simp add: strip_def d)
qed

lemma fallback_loop_eq:
  "fallback_loop hdr acc ls =
     ((case hdr of Some h \<Rightarrow> Some h
       | None \<Rightarrow> map_option strip (find (\<lambda>l. strip l \<noteq> [] \<and> \<not> startswith ''|'' l) ls)),
      acc @ filter (startswith ''|'') ls)"
proof (induction ls arbitrary: hdr acc)
  case Nil
  then show ?case by (simp split: option.splits)
next
  case (Cons l ls)
  show ?case using pipe_not_blank[of l]
    by (auto simp: Cons.IH split: option.splits)
qed

text \<open>
  C5. When the text does not contain both markers, \<open>iter_battles\<close> yields exactly
  one block. Its protocol lines are the lines of the input that begin with the pipe, in
  their order. Its header is the first line that is not empty once trimmed and does not
  begin with the pipe, trimmed, or the sentinel when there is no such line; protocol
  lines before that line are kept.
\<close>

theorem fallback_single_block:
  "\<not> (contains START text \<and> contains END text) \<Longrightarrow>
   iter_battles text =
     [BattleBlock
        (case find (\<lambda>l. strip l \<noteq> [] \<and> \<not> startswith ''|'' l) (file_lines text) of
           None \<Rightarrow> UNKNOWN_MATCHUP
         | Some l \<Rightarrow> strip l)
        (filter (startswith ''|'') (file_lines text))]"
proof -
  assume a: "\<not> (contains START text \<and> contains END text)"
  have h: "or_default (map_option strip
              (find (\<lambda>l. strip l \<noteq> [] \<and> \<not> startswith ''|'' l) (file_lines text)))
             UNKNOWN_MATCHUP
      = (case find (\<lambda>l. strip l \<noteq> [] \<and> \<not> startswith ''|'' l) (file_lines text) of
          None \<Rightarrow> UNKNOWN_MATCHUP
        | Some l \<Rightarrow> strip l)"
    by (auto simp: or_default_def split: option.splits dest: find_Some_iff[THEN iffD1])
  have "iter_battles text = [parse_single_battle_fallback text]"
    using a unfolding iter_battles_def by (rule if_not_P)
  then show ?thesis using h
    by (simp add: parse_single_battle_fallback_def fallback_loop_eq)
qed

theorem fallback_single_block_witness:
  "\<not> (contains START ''|j|x\<newline>   \<newline> A vs B \<newline>[[[[[\<newline>|turn|1\<newline>note'' \<and>
       contains END ''|j|x\<newline>   \<newline> A vs B \<newline>[[[[[\<newline>|turn|1\<newline>note'') \<and>
   iter_battles ''|j|x\<newline>   \<newline> A vs B \<newline>[[[[[\<newline>|turn|1\<newline>note'' =
     [BattleBlock ''A vs B'' [''|j|x'', ''|turn|1'']]"
proof -
  have h: "\<not> (contains START ''|j|x\<newline>   \<newline> A vs B \<newline>[[[[[\<newline>|turn|1\<newline>note'' \<and>
       contains END ''|j|x\<newline>   \<newline> A vs B \<newline>[[[[[\<newline>|turn|1\<newline>note'')"
    by code_simp
  have r: "[BattleBlock
        (case find (\<lambda>l. strip l \<noteq> [] \<and> \<not> startswith ''|'' l)
                (file_lines ''|j|x\<newline>   \<newline> A vs B \<newline>[[[[[\<newline>|turn|1\<newline>note'') of
           None \<Rightarrow> UNKNOWN_MATCHUP
         | Some l \<Rightarrow> strip l)
        (filter (startswith ''|'')
           (file_lines ''|j|x\<newline>   \<newline> A vs B \<newline>[[[[[\<newline>|turn|1\<newline>note''))]
      = [BattleBlock ''A vs B'' [''|j|x'', ''|turn|1'']]"
    by code_simp
  from fallback_single_block [OF h] r h show ?thesis by simp
qed


section \<open>Selection\<close>

lemma index_loop_below:
  "index < i \<Longrightarrow> index_loop i index bs = Inl (IndexError index)"
  by (induction bs arbitrary: i) auto

text \<open>
  C10. For every input and every negative index, \<open>get_battle_by_index\<close> fails with
  the index error, which carries the index; no block is returned, although the number
  of blocks is never below the index plus one.
\<close>

theorem negative_index_fails:
  "index < 0 \<Longrightarrow>
   get_battle_by_index text index = Inl (IndexError index) \<and>
   index + 1 \<le> int (length (iter_battles text))"
  by (simp add: get_battle_by_index_def index_loop_below)

theorem negative_index_fails_witness:
  "(- 1 :: int) < 0 \<and>
   get_battle_by_index ''[[[[[\<newline>A vs B\<newline>|player|p1|A|1|\<newline>|player|p2|B|2|\<newline>]]]]]\<newline>'' (- 1) = Inl (IndexError (- 1)) \<and>
   (- 1) + 1 \<le> int (length (iter_battles ''[[[[[\<newline>A vs B\<newline>|player|p1|A|1|\<newline>|player|p2|B|2|\<newline>]]]]]\<newline>''))"
proof -
  have h: "(- 1 :: int) < 0" by simp
  from negative_index_fails [OF h, of "''[[[[[\<newline>A vs B\<newline>|player|p1|A|1|\<newline>|player|p2|B|2|\<newline>]]]]]\<newline>''"] h show ?thesis by blast
qed

lemma matchup_loop_eq:
  "matchup_loop m t hits occ bs =
     (if hits \<le> occ \<and> nat (occ - hits) < length (filter (\<lambda>b. lower (strip (header b)) = t) bs)
      then Inr (filter (\<lambda>b. lower (strip (header b)) = t) bs ! nat (occ - hits))
      else Inl (ValueError m occ))"
proof (induction bs arbitrary: hits)
  case Nil
  then show ?case by simp
next
  case (Cons b bs)
  show ?case
  proof (cases "lower (strip (header b)) = t")
    case False
    then show ?thesis by (simp add: Cons.IH)
  next
    case True
    show ?thesis
    proof (cases "hits = occ")
      case True
      with \<open>lower (strip (header b)) = t\<close> show ?thesis by simp
    next
      case False
      have n: "hits < occ \<Longrightarrow> nat (occ - hits) = Suc (nat (occ - (hits + 1)))" by simp
      show ?thesis using False True n
        by (auto simp: Cons.IH)
    qed
  qed
qed

text \<open>
  C8. \<open>get_battle_by_matchup\<close> compares the key and every header in lower case
  after trimming both. With the matching blocks taken in the order in which they are
  yielded, it returns the one at the zero-based position \<open>occurrence\<close> when there is
  one, and fails otherwise with the value error, which carries the key as given and the
  occurrence asked for. In particular occurrence 1 fails when exactly one block matches.
\<close>

theorem matchup_selection:
  "get_battle_by_matchup text matchup occurrence =
     (if 0 \<le> occurrence \<and>
         occurrence < int (length (filter (\<lambda>b. lower (strip (header b)) = lower (strip matchup))
                                     (iter_battles text)))
      then Inr (filter (\<lambda>b. lower (strip (header b)) = lower (strip matchup))
                  (iter_battles text) ! nat occurrence)
      else Inl (ValueError matchup occurrence))
   \<and> (length (filter (\<lambda>b. lower (strip (header b)) = lower (strip matchup))
                (iter_battles text)) = 1 \<longrightarrow>
      get_battle_by_matchup text matchup 1 = Inl (ValueError matchup 1))"
  by (auto simp: get_battle_by_matchup_def matchup_loop_eq)

theorem matchup_selection_witness:
  "length (filter (\<lambda>b. lower (strip (header b)) = lower (strip '' a VS b ''))
             (iter_battles ''[[[[[\<newline>A vs B\<newline>|player|p1|A|1|\<newline>|player|p2|B|2|\<newline>]]]]]\<newline>'')) = 1 \<and>
   get_battle_by_matchup ''[[[[[\<newline>A vs B\<newline>|player|p1|A|1|\<newline>|player|p2|B|2|\<newline>]]]]]\<newline>'' '' a VS b '' 1 = Inl (ValueError '' a VS b '' 1)"
proof -
  have h: "length (filter (\<lambda>b. lower (strip (header b)) = lower (strip '' a VS b ''))
             (iter_battles ''[[[[[\<newline>A vs B\<newline>|player|p1|A|1|\<newline>|player|p2|B|2|\<newline>]]]]]\<newline>'')) = 1"
    by code_simp
  from matchup_selection [of "''[[[[[\<newline>A vs B\<newline>|player|p1|A|1|\<newline>|player|p2|B|2|\<newline>]]]]]\<newline>''" "'' a VS b ''" 1] h show ?thesis by blast
qed


section \<open>Splitting and joining at a separator\<close>

lemma split_on_nonempty: "split_on sep s \<noteq> []"
  by (induction s) (auto split: list.splits)

lemma split_on_append:
  "split_on sep (xs @ sep # ys) = split_on sep xs @ split_on sep ys"
proof (induction xs)
  case Nil
  then show ?case by simp
next
  case (Cons x xs)
  then show ?case using split_on_nonempty[of sep xs]
    by (cases "split_on sep xs") (auto split: list.splits)
qed




lemma join_Cons: "ps \<noteq> [] \<Longrightarrow> join s (p # ps) = p @ s @ join s ps"
  by (cases ps) auto






section \<open>The rewriter\<close>

lemma startswith_iff: "startswith p s \<longleftrightarrow> (\<exists>r. s = p @ r)"
  unfolding startswith_def by (metis append_eq_conv_conj append_take_drop_id)

lemma sides_exclusive:
  "startswith ''|player|p1|'' l \<Longrightarrow> \<not> startswith ''|player|p2|'' l"
  by (auto simp: startswith_iff)





lemma player_loop_eq:
  "player_loop n1 n2 a1 a2 f1 f2 ls =
     (map (rewrite_line n1 n2 a1 a2) ls,
      f1 \<or> (\<exists>l\<in>set ls. startswith ''|player|p1|'' l),
      f2 \<or> (\<exists>l\<in>set ls. startswith ''|player|p2|'' l))"
proof (induction ls arbitrary: f1 f2)
  case Nil
  then show ?case by simp
next
  case (Cons l ls)
  show ?case using sides_exclusive[of l]
    by (auto simp: Cons.IH rewrite_line_def)
qed

lemma find_start_eq:
  "find_start i ls =
     (if \<exists>l\<in>set ls. startswith ''|start|'' l
      then i + length (takeWhile (\<lambda>l. \<not> startswith ''|start|'' l) ls)
      else 0)"
  by (induction ls arbitrary: i) auto



lemma rewrite_line_other:
  "\<not> startswith ''|player|p1|'' l \<Longrightarrow> \<not> startswith ''|player|p2|'' l \<Longrightarrow>
   rewrite_line n1 n2 a1 a2 l = l"
  by (simp add: rewrite_line_def)

lemma list_insert_twice:
  "k \<le> length xs \<Longrightarrow> list_insert k y (list_insert k x xs) = take k xs @ [y, x] @ drop k xs"
  by (simp add: list_insert_def)

lemma find_start_le: "find_start 0 ls \<le> length ls"
  by (simp add: find_start_eq length_takeWhile_le)

text \<open>
  C7. When no line is a player record of either side and both names are supplied, the
  result is the input with two new player lines, the one of side 2 before the one of
  side 1, placed together before the first line that starts with \<open>|start|\<close>, or at
  the very beginning when there is no such line; every other line is unchanged and in
  its place. A name that is the empty string gives the side token as the name, and an
  avatar that is absent or empty gives \<open>1\<close>.
\<close>

theorem insert_both_players:
  "\<forall>l\<in>set ls. \<not> startswith ''|player|p1|'' l \<and> \<not> startswith ''|player|p2|'' l \<Longrightarrow>
   override_players ls (Some n1) (Some n2) a1 a2 =
     (if \<exists>l\<in>set ls. startswith ''|start|'' l
      then takeWhile (\<lambda>l. \<not> startswith ''|start|'' l) ls
           @ [player_line ''p2'' (or_default (Some n2) ''p2'') (or_default a2 ''1''),
              player_line ''p1'' (or_default (Some n1) ''p1'') (or_default a1 ''1'')]
           @ dropWhile (\<lambda>l. \<not> startswith ''|start|'' l) ls
      else [player_line ''p2'' (or_default (Some n2) ''p2'') (or_default a2 ''1''),
            player_line ''p1'' (or_default (Some n1) ''p1'') (or_default a1 ''1'')] @ ls)"
proof -
  assume np: "\<forall>l\<in>set ls. \<not> startswith ''|player|p1|'' l \<and> \<not> startswith ''|player|p2|'' l"
  have m: "map (rewrite_line (Some n1) (Some n2) a1 a2) ls = ls"
    using np by (simp add: rewrite_line_other map_idI)
  have o: "override_players ls (Some n1) (Some n2) a1 a2 =
        take (find_start 0 ls) ls
        @ [player_line ''p2'' (or_default (Some n2) ''p2'') (or_default a2 ''1''),
           player_line ''p1'' (or_default (Some n1) ''p1'') (or_default a1 ''1'')]
        @ drop (find_start 0 ls) ls"
    using np list_insert_twice[OF find_start_le[of ls]]
    by (simp add: override_players_def player_loop_eq m Let_def)
  show ?thesis
  proof (cases "\<exists>l\<in>set ls. startswith ''|start|'' l")
    case True
    then have k: "find_start 0 ls = length (takeWhile (\<lambda>l. \<not> startswith ''|start|'' l) ls)"
      by (simp add: find_start_eq)
    show ?thesis using True unfolding o k
      by (simp add: takeWhile_eq_take[symmetric] dropWhile_eq_drop[symmetric])
  next
    case False
    then have "find_start 0 ls = 0" by (simp add: find_start_eq)
    then show ?thesis using False unfolding o by simp
  qed
qed

theorem insert_both_players_witness:
  "\<not> startswith ''|player|p1|'' ''|j|x'' \<and> \<not> startswith ''|player|p2|'' ''|j|x'' \<and>
   \<not> startswith ''|player|p1|'' ''|start|'' \<and> \<not> startswith ''|player|p2|'' ''|start|'' \<and>
   \<not> startswith ''|player|p1|'' ''|turn|1'' \<and> \<not> startswith ''|player|p2|'' ''|turn|1'' \<and>
   override_players [''|j|x'', ''|start|'', ''|turn|1''] (Some ''Ann'') (Some ''Bob'') None None =
     [''|j|x'', ''|player|p2|Bob|1|'', ''|player|p1|Ann|1|'', ''|start|'', ''|turn|1'']"
proof -
  have h: "\<not> startswith ''|player|p1|'' ''|j|x''" "\<not> startswith ''|player|p2|'' ''|j|x''"
    "\<not> startswith ''|player|p1|'' ''|start|''" "\<not> startswith ''|player|p2|'' ''|start|''"
    "\<not> startswith ''|player|p1|'' ''|turn|1''" "\<not> startswith ''|player|p2|'' ''|turn|1''"
    by code_simp+
  then have b: "\<forall>l\<in>set [''|j|x'', ''|start|'', ''|turn|1''].
      \<not> startswith ''|player|p1|'' l \<and> \<not> startswith ''|player|p2|'' l"
    by simp
  have r: "(if \<exists>l\<in>set [''|j|x'', ''|start|'', ''|turn|1'']. startswith ''|start|'' l
      then takeWhile (\<lambda>l. \<not> startswith ''|start|'' l) [''|j|x'', ''|start|'', ''|turn|1'']
           @ [player_line ''p2'' (or_default (Some ''Bob'') ''p2'') (or_default None ''1''),
              player_line ''p1'' (or_default (Some ''Ann'') ''p1'') (or_default None ''1'')]
           @ dropWhile (\<lambda>l. \<not> startswith ''|start|'' l) [''|j|x'', ''|start|'', ''|turn|1'']
      else [player_line ''p2'' (or_default (Some ''Bob'') ''p2'') (or_default None ''1''),
            player_line ''p1'' (or_default (Some ''Ann'') ''p1'') (or_default None ''1'')]
           @ [''|j|x'', ''|start|'', ''|turn|1'']) =
     [''|j|x'', ''|player|p2|Bob|1|'', ''|player|p1|Ann|1|'', ''|start|'', ''|turn|1'']"
    by code_simp
  from insert_both_players [OF b, of "''Ann''" "''Bob''" None None] r h
  show ?thesis by simp
qed















section \<open>The builder\<close>

lemma find_snoc:
  "find P (xs @ [x]) = (case find P xs of None \<Rightarrow> (if P x then Some x else None) | Some y \<Rightarrow> Some y)"
  by (induction xs) auto

lemma pipe_field_guard:
  "(length (split_on (CHR ''|'') ln) > k \<and> split_on (CHR ''|'') ln ! k \<noteq> []) = (pipe_field k ln \<noteq> [])"
  by (simp add: pipe_field_def Let_def)

lemma pipe_field_value:
  "pipe_field k ln \<noteq> [] \<Longrightarrow> split_on (CHR ''|'') ln ! k = pipe_field k ln"
  by (simp add: pipe_field_def Let_def split: if_splits)

lemma prefixes_exclusive:
  "startswith ''|player|p1|'' l \<Longrightarrow> \<not> startswith ''|tier|'' l"
  "startswith ''|player|p2|'' l \<Longrightarrow> \<not> startswith ''|tier|'' l"
  "startswith ''|player|p1|'' l \<Longrightarrow> \<not> startswith ''|t:|'' l"
  "startswith ''|player|p2|'' l \<Longrightarrow> \<not> startswith ''|t:|'' l"
  "startswith ''|tier|'' l \<Longrightarrow> \<not> startswith ''|t:|'' l"
  by (auto simp: startswith_iff)

lemma scan_step_p1:
  "s_p1 (scan_step rt s l) =
     (if startswith ''|player|p1|'' l \<and> pipe_field 3 l \<noteq> [] then pipe_field 3 l else s_p1 s)"
  by (auto simp: scan_step_def Let_def pipe_field_def)

lemma scan_step_p2:
  "s_p2 (scan_step rt s l) =
     (if startswith ''|player|p2|'' l \<and> pipe_field 3 l \<noteq> [] then pipe_field 3 l else s_p2 s)"
  using sides_exclusive[of l]
  by (auto simp: scan_step_def Let_def pipe_field_def)

lemma scan_step_fmt:
  "s_fmt (scan_step rt s l) =
     (if startswith ''|tier|'' l \<and> pipe_field 2 l \<noteq> [] then pipe_field 2 l else s_fmt s)"
  using prefixes_exclusive(1,2)[of l]
  by (auto simp: scan_step_def Let_def pipe_field_def)

lemma scan_step_ts:
  "s_ts (scan_step rt s l) =
     (case s_ts s of
        Some t \<Rightarrow> Some t
      | None \<Rightarrow> if startswith ''|t:|'' l then parse_ts rt l else None)"
  using prefixes_exclusive(3,4,5)[of l]
  by (auto simp: scan_step_def Let_def split: option.splits)

lemma scan_loop_p1:
  "s_p1 (scan_loop rt s ls) =
     (case find (\<lambda>l. startswith ''|player|p1|'' l \<and> pipe_field 3 l \<noteq> []) (rev ls) of
        None \<Rightarrow> s_p1 s | Some l \<Rightarrow> pipe_field 3 l)"
  by (induction ls arbitrary: s) (auto simp: find_snoc scan_step_p1 split: option.splits)

lemma scan_loop_p2:
  "s_p2 (scan_loop rt s ls) =
     (case find (\<lambda>l. startswith ''|player|p2|'' l \<and> pipe_field 3 l \<noteq> []) (rev ls) of
        None \<Rightarrow> s_p2 s | Some l \<Rightarrow> pipe_field 3 l)"
  by (induction ls arbitrary: s) (auto simp: find_snoc scan_step_p2 split: option.splits)

lemma scan_loop_fmt:
  "s_fmt (scan_loop rt s ls) =
     (case find (\<lambda>l. startswith ''|tier|'' l \<and> pipe_field 2 l \<noteq> []) (rev ls) of
        None \<Rightarrow> s_fmt s | Some l \<Rightarrow> pipe_field 2 l)"
  by (induction ls arbitrary: s) (auto simp: find_snoc scan_step_fmt split: option.splits)

lemma scan_loop_ts:
  "s_ts (scan_loop rt s ls) =
     (case s_ts s of
        Some t \<Rightarrow> Some t
      | None \<Rightarrow>
          (case find (\<lambda>l. startswith ''|t:|'' l \<and> parse_ts rt l \<noteq> None) ls of
             None \<Rightarrow> None | Some l \<Rightarrow> parse_ts rt l))"
proof (induction ls arbitrary: s)
  case Nil
  then show ?case by (simp split: option.splits)
next
  case (Cons l ls)
  show ?case
    by (auto simp: Cons.IH scan_step_ts split: option.splits)
qed

text \<open>
  C1. The builder scans the lines once and the last match wins: the name of side 1 is
  pipe field 3 of the last player line of side 1 in which that field is not empty, or
  \<open>p1\<close> when there is none; the same for side 2 with \<open>p2\<close>; the format is
  pipe field 2 of the last tier line in which that field is not empty, or
  \<open>Custom Game\<close> when there is none.
\<close>

theorem builder_last_match:
  "p1 (build_replay_object rt ls rid) =
     (case find (\<lambda>l. startswith ''|player|p1|'' l \<and> pipe_field 3 l \<noteq> []) (rev ls) of
        None \<Rightarrow> ''p1'' | Some l \<Rightarrow> pipe_field 3 l)
   \<and> p2 (build_replay_object rt ls rid) =
     (case find (\<lambda>l. startswith ''|player|p2|'' l \<and> pipe_field 3 l \<noteq> []) (rev ls) of
        None \<Rightarrow> ''p2'' | Some l \<Rightarrow> pipe_field 3 l)
   \<and> format (build_replay_object rt ls rid) =
     (case find (\<lambda>l. startswith ''|tier|'' l \<and> pipe_field 2 l \<noteq> []) (rev ls) of
        None \<Rightarrow> ''Custom Game'' | Some l \<Rightarrow> pipe_field 2 l)"
  by (simp add: build_replay_object_def Let_def scan_loop_p1 scan_loop_p2 scan_loop_fmt scan_init_def
        split: option.splits)

text \<open>
  Two player lines of side 1: the first one with a name is the line of \<open>A\<close>, and the
  builder returns \<open>B\<close>, the name of the later line.
\<close>

theorem first_match_refuted:
  "find (\<lambda>l. startswith ''|player|p1|'' l \<and> pipe_field 3 l \<noteq> [])
     [''|player|p1|A|1|'', ''|player|p1|B|2|''] = Some ''|player|p1|A|1|'' \<and>
   pipe_field 3 ''|player|p1|A|1|'' = ''A'' \<and>
   p1 (build_replay_object (py_runtime ''Tue Nov 03 2026 12:00:00'')
         [''|player|p1|A|1|'', ''|player|p1|B|2|''] ''sim'') = ''B''"
  by code_simp

lemma parse_ts_field:
  "parse_ts rt (''|t:|'' @ r) =
     (case int_of_str rt (pipe_field 2 (''|t:|'' @ r)) of
        None \<Rightarrow> None | Some epoch \<Rightarrow> utc_strftime rt epoch)"
proof -
  have "''|t:|'' @ r = ''|t:'' @ CHR ''|'' # r" by simp
  then have "split_on (CHR ''|'') (''|t:|'' @ r) = split_on (CHR ''|'') ''|t:'' @ split_on (CHR ''|'') r"
    by (simp only: split_on_append)
  then have sp: "split_on (CHR ''|'') (''|t:|'' @ r) = [[], ''t:''] @ split_on (CHR ''|'') r"
    by simp
  obtain q qs where q: "split_on (CHR ''|'') r = q # qs"
    using split_on_nonempty[of "CHR ''|''" r] by (cases "split_on (CHR ''|'') r") auto
  show ?thesis unfolding parse_ts_def pipe_field_def sp q by (simp add: Let_def)
qed

text \<open>
  C2. The time stamp comes from the first line starting with \<open>|t:|\<close> whose pipe
  field 2 is read as an integer and converted to the UTC string without an exception;
  lines for which that fails are passed over. When there is no such line the time stamp
  is the current UTC time in the same format, so no failure is raised. For a line
  starting with \<open>|t:|\<close> the value is the conversion of the integer read from pipe
  field 2.
\<close>

theorem builder_timestamp:
  "timestamp (build_replay_object rt ls rid) =
     (case find (\<lambda>l. startswith ''|t:|'' l \<and> parse_ts rt l \<noteq> None) ls of
        None \<Rightarrow> utc_now rt
      | Some l \<Rightarrow> (case parse_ts rt l of None \<Rightarrow> utc_now rt | Some t \<Rightarrow> t))
   \<and> parse_ts rt (''|t:|'' @ r) =
     (case int_of_str rt (pipe_field 2 (''|t:|'' @ r)) of
        None \<Rightarrow> None | Some epoch \<Rightarrow> utc_strftime rt epoch)"
proof -
  have "timestamp (build_replay_object rt ls rid) =
     (case find (\<lambda>l. startswith ''|t:|'' l \<and> parse_ts rt l \<noteq> None) ls of
        None \<Rightarrow> utc_now rt
      | Some l \<Rightarrow> (case parse_ts rt l of None \<Rightarrow> utc_now rt | Some t \<Rightarrow> t))"
    by (simp add: build_replay_object_def Let_def scan_loop_ts scan_init_def
          split: option.splits)
  then show ?thesis using parse_ts_field[of rt r] by blast
qed

text \<open>
  The first time line does not hold an integer and the second one holds 0: the time
  stamp is the one of the second line, not the current time.
\<close>

theorem first_t_line_refuted:
  "find (startswith ''|t:|'') [''|t:|abc'', ''|t:|0''] = Some ''|t:|abc'' \<and>
   parse_ts (py_runtime ''Tue Nov 03 2026 12:00:00'') ''|t:|abc'' = None \<and>
   utc_now (py_runtime ''Tue Nov 03 2026 12:00:00'') = ''Tue Nov 03 2026 12:00:00'' \<and>
   timestamp (build_replay_object (py_runtime ''Tue Nov 03 2026 12:00:00'')
                [''|t:|abc'', ''|t:|0''] ''sim'') = ''Thu Jan 01 1970 00:00:00''"
  by code_simp

end
